theory Spec2Isabelle
  imports Main
begin

section \<open>Text\<close>

text \<open>
  A Python \<open>str\<close> is modelled as a \<^typ>\<open>string\<close> whose characters are read as the
  code points 0 to 255, so \<^const>\<open>length\<close> counts code points as \<open>len\<close> does. The record
  format fetched by the program (the GenBank flat file) is ASCII.
\<close>

definition code :: "char \<Rightarrow> nat" where
  "code c = of_char c"

definition dquote :: char where
  "dquote = CHR 0x22"

definition newline :: char where
  "newline = CHR 0x0A"

text \<open>
  \<open>str.isspace\<close>, which is also what \<open>str.strip()\<close> removes and what \<open>\s\<close> matches in a
  \<open>str\<close> pattern: TAB, LF, VT, FF, CR, the separators 0x1C to 0x1F, the blank, NEL and the
  no-break space.
\<close>

definition space_code :: "nat \<Rightarrow> bool" where
  "space_code n \<longleftrightarrow> (9 \<le> n \<and> n \<le> 13) \<or> (28 \<le> n \<and> n \<le> 32) \<or> n = 133 \<or> n = 160"

definition is_space :: "char \<Rightarrow> bool" where
  "is_space c = space_code (code c)"

text \<open>
  The lower-case code point of a character: the letters A to Z and the upper-case
  letters of 0xC0 to 0xDE (0xD7, the multiplication sign, is no letter) lie 32 below
  their lower-case forms. Under \<open>re.IGNORECASE\<close> two characters are the same when their
  lower-case code points are.
\<close>

definition lower_code :: "nat \<Rightarrow> nat" where
  "lower_code n =
     (if (65 \<le> n \<and> n \<le> 90) \<or> (192 \<le> n \<and> n \<le> 222 \<and> n \<noteq> 215) then n + 32 else n)"

definition eq_ci :: "char \<Rightarrow> char \<Rightarrow> bool" where
  "eq_ci a b \<longleftrightarrow> lower_code (code a) = lower_code (code b)"

section \<open>The regular expressions of the program\<close>

text \<open>
  The two patterns of the program, \<open>CDS\s+.*?/translation="([^"]*)"\<close> and \<open>\s+\<close>, are
  sequences of single-character atoms, each taken once or under a greedy or lazy
  repetition, with one capturing group. \<open>rx_match\<close> is the backtracking matcher of
  Python's \<open>re\<close> on such sequences: a greedy repetition first takes one more character
  and gives it back when the rest of the pattern fails, a lazy one first tries the rest
  of the pattern and takes one more character when that fails.
\<close>

datatype flag = IGNORECASE | DOTALL

datatype atom =
    Lit char
  | Space
  | Any
  | Not_lit char

datatype item =
    Once atom
  | Greedy_plus atom
  | Greedy_star atom
  | Lazy_star atom
  | Group_open
  | Group_close

fun atom_ok :: "flag list \<Rightarrow> atom \<Rightarrow> char \<Rightarrow> bool" where
  "atom_ok fl (Lit a) c = (if IGNORECASE \<in> set fl then eq_ci a c else a = c)"
| "atom_ok fl Space c = is_space c"
| "atom_ok fl Any c = (DOTALL \<in> set fl \<or> c \<noteq> newline)"
| "atom_ok fl (Not_lit a) c = (\<not> (if IGNORECASE \<in> set fl then eq_ci a c else a = c))"

text \<open>
  The result of a match is the text that was left at each group boundary, in the order
  of the boundaries, and last the text left after the whole match.
\<close>

fun rx_match :: "flag list \<Rightarrow> item list \<Rightarrow> string \<Rightarrow> string list option" where
  "rx_match fl [] s = Some [s]"
| "rx_match fl (Once a # its) [] = None"
| "rx_match fl (Once a # its) (c # cs) =
     (if atom_ok fl a c then rx_match fl its cs else None)"
| "rx_match fl (Greedy_plus a # its) [] = None"
| "rx_match fl (Greedy_plus a # its) (c # cs) =
     (if atom_ok fl a c then rx_match fl (Greedy_star a # its) cs else None)"
| "rx_match fl (Greedy_star a # its) [] = rx_match fl its []"
| "rx_match fl (Greedy_star a # its) (c # cs) =
     (if atom_ok fl a c
      then (case rx_match fl (Greedy_star a # its) cs of
              Some m \<Rightarrow> Some m
            | None \<Rightarrow> rx_match fl its (c # cs))
      else rx_match fl its (c # cs))"
| "rx_match fl (Lazy_star a # its) [] = rx_match fl its []"
| "rx_match fl (Lazy_star a # its) (c # cs) =
     (case rx_match fl its (c # cs) of
        Some m \<Rightarrow> Some m
      | None \<Rightarrow> if atom_ok fl a c then rx_match fl (Lazy_star a # its) cs else None)"
| "rx_match fl (Group_open # its) s = map_option (\<lambda>m. s # m) (rx_match fl its s)"
| "rx_match fl (Group_close # its) s = map_option (\<lambda>m. s # m) (rx_match fl its s)"

text \<open>\<open>re.search\<close>: the match at the leftmost position where the pattern matches.\<close>

fun rx_search :: "flag list \<Rightarrow> item list \<Rightarrow> string \<Rightarrow> string list option" where
  "rx_search fl its [] = rx_match fl its []"
| "rx_search fl its (c # cs) =
     (case rx_match fl its (c # cs) of
        Some m \<Rightarrow> Some m
      | None \<Rightarrow> rx_search fl its cs)"

text \<open>\<open>match.group(1)\<close>: the text between the first two group boundaries.\<close>

definition group1 :: "string list \<Rightarrow> string" where
  "group1 m = take (length (m ! 0) - length (m ! 1)) (m ! 0)"

text \<open>
  \<open>re.sub(pattern, '', s)\<close>: the text without the matches of the pattern, found from left
  to right. Taking out a match that consumed nothing leaves the text as it is, so the
  scan copies the character and moves on.
\<close>

function rx_remove :: "flag list \<Rightarrow> item list \<Rightarrow> string \<Rightarrow> string" where
  "rx_remove fl its [] = []"
| "rx_remove fl its (c # cs) =
     (case rx_match fl its (c # cs) of
        None \<Rightarrow> c # rx_remove fl its cs
      | Some m \<Rightarrow>
          if length (last m) \<le> length cs then rx_remove fl its (last m)
          else c # rx_remove fl its cs)"
  by pat_completeness auto
termination
  by (relation "measure (\<lambda>(fl, its, s). length s)") auto

section \<open>Extraction of the translation\<close>

text \<open>The pattern \<open>CDS\s+.*?/translation="([^"]*)"\<close>.\<close>

definition translation_tag :: string where
  "translation_tag = ''/translation='' @ [dquote]"

definition pattern :: "item list" where
  "pattern =
     map (\<lambda>c. Once (Lit c)) ''CDS'' @ [Greedy_plus Space, Lazy_star Any] @
     map (\<lambda>c. Once (Lit c)) translation_tag @
     [Group_open, Greedy_star (Not_lit dquote), Group_close, Once (Lit dquote)]"

definition extract_cds_translation_genbank :: "string \<Rightarrow> string option" where
  "extract_cds_translation_genbank genbank_content =
     (case rx_search [DOTALL, IGNORECASE] pattern genbank_content of
        Some m \<Rightarrow>
          (let raw_sequence = group1 m;
               clean_sequence = rx_remove [] [Greedy_plus Space] raw_sequence
           in Some clean_sequence)
      | None \<Rightarrow> None)"

section \<open>Reading the accessions\<close>

text \<open>\<open>str.strip()\<close> and \<open>str.split(sep)\<close>; the latter always returns at least one field.\<close>

definition strip :: "string \<Rightarrow> string" where
  "strip s = rev (dropWhile is_space (rev (dropWhile is_space s)))"

fun split :: "char \<Rightarrow> string \<Rightarrow> string list" where
  "split sep [] = [[]]"
| "split sep (c # cs) =
     (if c = sep then [] # split sep cs
      else (c # hd (split sep cs)) # tl (split sep cs))"

definition leer_accesiones_desde_contenido :: "string \<Rightarrow> string list" where
  "leer_accesiones_desde_contenido contenido =
     (let contenido = strip contenido
      in if contenido \<noteq> []
         then map strip (filter (\<lambda>acc. strip acc \<noteq> []) (split CHR '','' contenido))
         else [])"

section \<open>Fetching a record\<close>

text \<open>
  An exception is kept as its text \<open>str(e)\<close>. Only instances of \<open>Exception\<close> are meant:
  the handlers of the program are all \<open>except Exception\<close>.
\<close>

type_synonym fault = string

text \<open>
  What the program writes to standard output, by the \<open>print\<close> call that wrote it and the
  values formatted into its message; and what happens during a run, in order: messages
  printed and suspensions by \<open>asyncio.sleep\<close>, with their length. Writing to standard
  output is taken to succeed.
\<close>

datatype message =
    Procesando string
  | Fetch_failed string fault
  | Encontrada string
  | Longitud nat
  | Primeros string
  | No_encontrada string
  | Error_genbank string
  | Error_general string fault

datatype event = Print message | Sleep nat

text \<open>
  The remote server and the \<open>requests\<close> library are outside the program. A call of
  \<open>requests.get(url, timeout=15)\<close> followed by \<open>raise_for_status()\<close> and \<open>response.text\<close>
  either raises (a timeout, a connection error, a 4xx or 5xx status) or gives the text
  of the body.
\<close>

type_synonym http = "string \<Rightarrow> fault + string"

definition genbank_url :: "string \<Rightarrow> string" where
  "genbank_url accession =
     ''https://www.ncbi.nlm.nih.gov/sviewer/viewer.fcgi?id='' @ accession @
     ''&db=nuccore&report=genbank&retmode=text''"

text \<open>The result is what was printed and the returned value, \<open>None\<close> or the text.\<close>

definition get_genbank_content :: "http \<Rightarrow> string \<Rightarrow> message list \<times> string option" where
  "get_genbank_content requests_get accession =
     (let url = genbank_url accession
      in case requests_get url of
           Inr text \<Rightarrow> ([], Some text)
         | Inl e \<Rightarrow> ([Fetch_failed accession e], None))"

section \<open>The batch pipeline\<close>

record row =
  ID :: string
  SEQUENCE :: string
  estado :: string

record state =
  results :: "row list"
  trace :: "event list"

definition append_row :: "row \<Rightarrow> state \<Rightarrow> state" where
  "append_row r st = st\<lparr>results := results st @ [r]\<rparr>"

definition emit :: "message list \<Rightarrow> state \<Rightarrow> state" where
  "emit ms st = st\<lparr>trace := trace st @ map Print ms\<rparr>"

definition sleep :: "nat \<Rightarrow> state \<Rightarrow> state" where
  "sleep d st = st\<lparr>trace := trace st @ [Sleep d]\<rparr>"

text \<open>
  The loop body calls \<open>get_genbank_content\<close> and \<open>extract_cds_translation_genbank\<close> inside
  a \<open>try\<close> whose handler is for the case that one of them raises. Python looks both
  names up at the time of the call, so the body is given the two functions: the fetcher
  with the number of the item it is called for (the remote server may answer two
  requests for one accession differently), returning what it printed and either the
  fault it raised or its value; the extractor returning the fault it raised or its
  value.
\<close>

type_synonym fetcher = "nat \<Rightarrow> string \<Rightarrow> message list \<times> (fault + string option)"
type_synonym extractor = "string \<Rightarrow> fault + string option"

text \<open>The handler \<open>except Exception as e\<close> of the loop body.\<close>

definition on_fault :: "string \<Rightarrow> fault \<Rightarrow> state \<Rightarrow> state" where
  "on_fault accession e st =
     emit [Error_general accession e]
       (append_row \<lparr>ID = CHR ''>'' # accession, SEQUENCE = ''Error: '' @ e,
                    estado = ''error''\<rparr> st)"

text \<open>The branch \<open>else\<close> of \<open>if genbank_content\<close>: the content is \<open>None\<close> or empty.\<close>

definition on_no_content :: "string \<Rightarrow> state \<Rightarrow> state" where
  "on_no_content accession st =
     emit [Error_genbank accession]
       (append_row \<lparr>ID = CHR ''>'' # accession, SEQUENCE = ''Error obteniendo GenBank'',
                    estado = ''error''\<rparr> st)"

text \<open>The branch \<open>else\<close> of \<open>if sequence\<close>: the sequence is \<open>None\<close> or empty.\<close>

definition on_no_sequence :: "string \<Rightarrow> state \<Rightarrow> state" where
  "on_no_sequence accession st =
     emit [No_encontrada accession]
       (append_row \<lparr>ID = CHR ''>'' # accession, SEQUENCE = ''No encontrada en GenBank'',
                    estado = ''secuencia no encontrada''\<rparr> st)"

definition on_sequence :: "string \<Rightarrow> string \<Rightarrow> state \<Rightarrow> state" where
  "on_sequence accession sequence st =
     emit [Encontrada accession, Longitud (length sequence),
           Primeros (take 50 sequence)]
       (append_row \<lparr>ID = CHR ''>'' # accession, SEQUENCE = sequence,
                    estado = CHR 0xE9 # ''xito''\<rparr> st)"

definition process_item :: "fetcher \<Rightarrow> extractor \<Rightarrow> nat \<Rightarrow> string \<Rightarrow> state \<Rightarrow> state" where
  "process_item fetch extr k accession st =
     (case fetch k accession of
        (printed, Inl e) \<Rightarrow> on_fault accession e (emit printed st)
      | (printed, Inr None) \<Rightarrow> on_no_content accession (emit printed st)
      | (printed, Inr (Some genbank_content)) \<Rightarrow>
          if genbank_content \<noteq> [] then
            (case extr genbank_content of
               Inl e \<Rightarrow> on_fault accession e (emit printed st)
             | Inr None \<Rightarrow> on_no_sequence accession (emit printed st)
             | Inr (Some sequence) \<Rightarrow>
                 if sequence \<noteq> [] then on_sequence accession sequence (emit printed st)
                 else on_no_sequence accession (emit printed st))
          else on_no_content accession (emit printed st))"

text \<open>The \<open>for\<close> loop, from item number \<open>k\<close> on.\<close>

fun scrape_loop :: "fetcher \<Rightarrow> extractor \<Rightarrow> nat \<Rightarrow> string list \<Rightarrow> state \<Rightarrow> state" where
  "scrape_loop fetch extr k [] st = st"
| "scrape_loop fetch extr k (accession # rest) st =
     scrape_loop fetch extr (Suc k) rest
       (sleep 1
          (process_item fetch extr k accession
             (emit [Procesando accession] st)))"

definition scrape_with :: "fetcher \<Rightarrow> extractor \<Rightarrow> string list \<Rightarrow> state" where
  "scrape_with fetch extr accession_list =
     scrape_loop fetch extr 0 accession_list \<lparr>results = [], trace = []\<rparr>"

text \<open>
  The pipeline with the program's own fetcher and extractor; \<open>remote k\<close> is how the
  remote side answers the request made for item \<open>k\<close>. The function returns \<open>results\<close>.
\<close>

definition own_fetcher :: "(nat \<Rightarrow> http) \<Rightarrow> fetcher" where
  "own_fetcher remote k accession =
     (case get_genbank_content (remote k) accession of
        (printed, genbank_content) \<Rightarrow> (printed, Inr genbank_content))"

definition own_extractor :: extractor where
  "own_extractor genbank_content = Inr (extract_cds_translation_genbank genbank_content)"

definition scrape_run :: "(nat \<Rightarrow> http) \<Rightarrow> string list \<Rightarrow> state" where
  "scrape_run remote accession_list =
     scrape_with (own_fetcher remote) own_extractor accession_list"

definition scrape_ncbi_sequences :: "(nat \<Rightarrow> http) \<Rightarrow> string list \<Rightarrow> row list" where
  "scrape_ncbi_sequences remote accession_list = results (scrape_run remote accession_list)"

section \<open>Notions used in the statements\<close>

subsection \<open>The pipeline\<close>

text \<open>The row that the loop body appends for item \<open>k\<close>, and the messages it prints.\<close>

definition item_row :: "fetcher \<Rightarrow> extractor \<Rightarrow> nat \<Rightarrow> string \<Rightarrow> row" where
  "item_row fetch extr k accession =
     last (results (process_item fetch extr k accession \<lparr>results = [], trace = []\<rparr>))"

definition item_messages :: "fetcher \<Rightarrow> extractor \<Rightarrow> nat \<Rightarrow> string \<Rightarrow> message list" where
  "item_messages fetch extr k accession =
     (case fetch k accession of
        (printed, Inl e) \<Rightarrow> printed @ [Error_general accession e]
      | (printed, Inr None) \<Rightarrow> printed @ [Error_genbank accession]
      | (printed, Inr (Some c)) \<Rightarrow>
          if c = [] then printed @ [Error_genbank accession]
          else (case extr c of
                  Inl e \<Rightarrow> printed @ [Error_general accession e]
                | Inr None \<Rightarrow> printed @ [No_encontrada accession]
                | Inr (Some s) \<Rightarrow>
                    if s = [] then printed @ [No_encontrada accession]
                    else printed @ [Encontrada accession, Longitud (length s),
                                    Primeros (take 50 s)]))"

text \<open>The lengths of the suspensions in a trace, in order.\<close>

fun sleeps :: "event list \<Rightarrow> nat list" where
  "sleeps [] = []"
| "sleeps (Print m # es) = sleeps es"
| "sleeps (Sleep d # es) = d # sleeps es"

text \<open>A remote side on which every request has the same outcome.\<close>

definition always_reply :: "fault + string \<Rightarrow> nat \<Rightarrow> http" where
  "always_reply r k url = r"

subsection \<open>The first CDS feature with a quoted translation\<close>

text \<open>
  The extractor is specified as a search for the first occurrence of a feature block
  that begins with the keyword \<open>CDS\<close>, followed eventually by a quoted attribute tagged
  \<open>/translation=\<close>, matching without regard to letter case and across line breaks.
  The following definitions say this without a regular expression.
\<close>

text \<open>The text \<open>s\<close> begins with \<open>lit\<close>, letter case ignored.\<close>

fun ci_prefix :: "string \<Rightarrow> string \<Rightarrow> bool" where
  "ci_prefix [] s = True"
| "ci_prefix (a # as) [] = False"
| "ci_prefix (a # as) (c # cs) = (eq_ci a c \<and> ci_prefix as cs)"

text \<open>The text begins with the keyword \<open>CDS\<close> and a whitespace character.\<close>

definition cds_head :: "string \<Rightarrow> bool" where
  "cds_head u \<longleftrightarrow>
     ci_prefix ''CDS'' u \<and> (case drop 3 u of [] \<Rightarrow> False | c # r \<Rightarrow> is_space c)"

text \<open>The text begins with the attribute tag \<open>/translation="\<close>.\<close>

definition tag_head :: "string \<Rightarrow> bool" where
  "tag_head u \<longleftrightarrow> ci_prefix translation_tag u"

text \<open>The first place of a text, as the rest of the text from there, that satisfies \<open>P\<close>.\<close>

fun first_suffix :: "(string \<Rightarrow> bool) \<Rightarrow> string \<Rightarrow> string option" where
  "first_suffix P [] = (if P [] then Some [] else None)"
| "first_suffix P (c # cs) = (if P (c # cs) then Some (c # cs) else first_suffix P cs)"

text \<open>The text up to the closing quote, when there is one.\<close>

definition quoted :: "string \<Rightarrow> string option" where
  "quoted w =
     (if dquote \<in> set w then Some (takeWhile (\<lambda>x. x \<noteq> dquote) w) else None)"

text \<open>
  The quoted payload of the first pair: the text after the first keyword \<open>CDS\<close> with its
  whitespace character, from there the text after the first tag, and of that the part
  before the closing quote.
\<close>

definition first_raw_translation :: "string \<Rightarrow> string option" where
  "first_raw_translation content =
     (case first_suffix cds_head content of
        None \<Rightarrow> None
      | Some u \<Rightarrow>
          (case first_suffix tag_head (drop 4 u) of
             None \<Rightarrow> None
           | Some v \<Rightarrow> quoted (drop 14 v)))"

text \<open>The same without its whitespace: what the extractor is specified to return.\<close>

definition first_translation :: "string \<Rightarrow> string option" where
  "first_translation content =
     map_option (filter (\<lambda>x. \<not> is_space x)) (first_raw_translation content)"

text \<open>
  The content holds a CDS feature followed by a quoted \<open>/translation=\<close> attribute: it can
  be cut into a keyword \<open>CDS\<close> in any letter case, a whitespace character, any text, the
  tag in any letter case, a payload and a closing quote.
\<close>

definition has_cds_translation :: "string \<Rightarrow> bool" where
  "has_cds_translation content \<longleftrightarrow>
     (\<exists>pre kw sp mid tag payload post.
        content = pre @ kw @ sp # mid @ tag @ payload @ dquote # post \<and>
        list_all2 eq_ci ''CDS'' kw \<and> is_space sp \<and> list_all2 eq_ci translation_tag tag)"

subsection \<open>Auxiliary notions of the proofs\<close>

text \<open>The flags of the search, \<open>re.DOTALL | re.IGNORECASE\<close>.\<close>

abbreviation (input) FLAGS :: "flag list" where
  "FLAGS \<equiv> [DOTALL, IGNORECASE]"

text \<open>The pattern from the attribute tag on, and what it matches after the tag.\<close>

definition tail_items :: "item list" where
  "tail_items = map (\<lambda>c. Once (Lit c)) translation_tag @
     [Group_open, Greedy_star (Not_lit dquote), Group_close, Once (Lit dquote)]"

definition closing :: "string \<Rightarrow> string list option" where
  "closing w =
     (case dropWhile (\<lambda>x. x \<noteq> dquote) w of [] \<Rightarrow> None | c # r \<Rightarrow> Some [w, c # r, r])"

section \<open>Properties of the batch pipeline\<close>

lemmas branch_defs = on_fault_def on_no_content_def on_no_sequence_def on_sequence_def
  emit_def append_row_def

lemma process_item_results:
  "results (process_item fetch extr k accession st) =
     results st @ [item_row fetch extr k accession]"
  by (simp add: process_item_def item_row_def branch_defs
      split: prod.splits sum.splits option.splits)

lemma process_item_trace:
  "trace (process_item fetch extr k accession st) =
     trace st @ map Print (item_messages fetch extr k accession)"
  by (simp add: process_item_def item_messages_def branch_defs
      split: prod.splits sum.splits option.splits)

lemma item_row_ID: "ID (item_row fetch extr k accession) = CHR ''>'' # accession"
  by (simp add: process_item_def item_row_def branch_defs
      split: prod.splits sum.splits option.splits)

lemma scrape_loop_results:
  "results (scrape_loop fetch extr k accs st) =
     results st @ map (\<lambda>(j, a). item_row fetch extr j a) (zip [k..<k + length accs] accs)"
proof (induction accs arbitrary: k st)
  case Nil
  show ?case by simp
next
  case (Cons a accs)
  show ?case
    by (simp add: Cons.IH process_item_results sleep_def emit_def upt_conv_Cons del: upt_Suc)
qed

lemma scrape_loop_trace:
  "trace (scrape_loop fetch extr k accs st) =
     trace st @
     concat (map (\<lambda>(a, ms). Print (Procesando a) # map Print ms @ [Sleep 1])
       (zip accs (map (\<lambda>(j, a). item_messages fetch extr j a)
          (zip [k..<k + length accs] accs))))"
proof (induction accs arbitrary: k st)
  case Nil
  show ?case by simp
next
  case (Cons a accs)
  show ?case
    by (simp add: Cons.IH process_item_trace sleep_def emit_def upt_conv_Cons del: upt_Suc)
qed

lemma scrape_with_results:
  "results (scrape_with fetch extr accs) =
     map (\<lambda>(j, a). item_row fetch extr j a) (zip [0..<length accs] accs)"
  by (simp add: scrape_with_def scrape_loop_results)

lemma scrape_with_length: "length (results (scrape_with fetch extr accs)) = length accs"
  by (simp add: scrape_with_results)

lemma scrape_with_nth:
  "k < length accs \<Longrightarrow>
     results (scrape_with fetch extr accs) ! k = item_row fetch extr k (accs ! k)"
  by (simp add: scrape_with_results)

text \<open>
  C1: for every input list the run yields exactly one row per accession, in the order of
  the list: the identifiers of the rows are the accessions of the list, each behind the
  marker \<open>>\<close>. This holds whatever the fetcher and the extractor do, faults included,
  and so for the program's own fetcher and extractor.
\<close>

theorem one_row_per_accession_in_order:
  "length (results (scrape_with fetch extr accession_list)) = length accession_list \<and>
   map ID (results (scrape_with fetch extr accession_list)) =
     map (\<lambda>accession. CHR ''>'' # accession) accession_list \<and>
   length (scrape_ncbi_sequences remote accession_list) = length accession_list \<and>
   map ID (scrape_ncbi_sequences remote accession_list) =
     map (\<lambda>accession. CHR ''>'' # accession) accession_list"
proof -
  have "map ID (results (scrape_with f x accs)) = map (\<lambda>a. CHR ''>'' # a) accs" for f x accs
    by (rule nth_equalityI) (simp_all add: scrape_with_results item_row_ID)
  then show ?thesis
    by (simp add: scrape_with_length scrape_ncbi_sequences_def scrape_run_def)
qed

lemma item_row_cong:
  assumes "fetch' k a = fetch k a"
    and "\<And>c. snd (fetch k a) = Inr (Some c) \<Longrightarrow> extr' c = extr c"
  shows "item_row fetch' extr' k a = item_row fetch extr k a"
  using assms
  by (auto simp add: item_row_def process_item_def split: prod.splits sum.splits option.splits)

lemma item_row_fault:
  assumes "fetch k a = (printed, Inl e) \<or>
      (\<exists>c. fetch k a = (printed, Inr (Some c)) \<and> c \<noteq> [] \<and> extr c = Inl e)"
  shows "item_row fetch extr k a =
     \<lparr>ID = CHR ''>'' # a, SEQUENCE = ''Error: '' @ e, estado = ''error''\<rparr>"
  using assms
  by (auto simp add: item_row_def process_item_def branch_defs)

text \<open>
  C2: when the fetch or the extraction of item \<open>k\<close> raises a fault \<open>e\<close>, the run still
  yields one row per item, the row of item \<open>k\<close> has the status \<open>error\<close> and the payload
  \<open>Error: \<close> followed by the text of the fault, and every other row is the one that any
  run yields in which the fetcher and the extractor behave the same on the other items
  (in particular a run in which item \<open>k\<close> does not fault).
\<close>

theorem item_fault_caught:
  assumes "k < length accs"
    and "fetch k (accs ! k) = (printed, Inl e) \<or>
      (\<exists>c. fetch k (accs ! k) = (printed, Inr (Some c)) \<and> c \<noteq> [] \<and> extr c = Inl e)"
  shows "length (results (scrape_with fetch extr accs)) = length accs \<and>
     results (scrape_with fetch extr accs) ! k =
       \<lparr>ID = CHR ''>'' # accs ! k, SEQUENCE = ''Error: '' @ e, estado = ''error''\<rparr> \<and>
     (\<forall>fetch' extr'.
        (\<forall>j<length accs. j \<noteq> k \<longrightarrow>
           fetch' j (accs ! j) = fetch j (accs ! j) \<and>
           (\<forall>c. snd (fetch j (accs ! j)) = Inr (Some c) \<longrightarrow> extr' c = extr c)) \<longrightarrow>
        (\<forall>j<length accs. j \<noteq> k \<longrightarrow>
           results (scrape_with fetch' extr' accs) ! j =
           results (scrape_with fetch extr accs) ! j))"
proof (intro conjI allI impI)
  show "length (results (scrape_with fetch extr accs)) = length accs"
    by (rule scrape_with_length)
  show "results (scrape_with fetch extr accs) ! k =
      \<lparr>ID = CHR ''>'' # accs ! k, SEQUENCE = ''Error: '' @ e, estado = ''error''\<rparr>"
    using assms by (simp add: scrape_with_nth item_row_fault)
next
  fix fetch' :: fetcher and extr' :: extractor and j
  assume same: "\<forall>j<length accs. j \<noteq> k \<longrightarrow>
           fetch' j (accs ! j) = fetch j (accs ! j) \<and>
           (\<forall>c. snd (fetch j (accs ! j)) = Inr (Some c) \<longrightarrow> extr' c = extr c)"
    and j: "j < length accs" "j \<noteq> k"
  from same j have "item_row fetch' extr' j (accs ! j) = item_row fetch extr j (accs ! j)"
    by (intro item_row_cong) auto
  with j show "results (scrape_with fetch' extr' accs) ! j =
           results (scrape_with fetch extr accs) ! j"
    by (simp add: scrape_with_nth)
qed

lemmas eval_defs = scrape_with_def process_item_def branch_defs sleep_def

theorem item_fault_caught_witness:
  "map estado (results (scrape_with
      (\<lambda>k a. if k = 1 then ([], Inl ''boom'') else ([], Inr (Some ''LOCUS'')))
      (\<lambda>c. Inr (Some ''MK'')) [''A'', ''B'', ''C''])) =
     [CHR 0xE9 # ''xito'', ''error'', CHR 0xE9 # ''xito''] \<and>
   results (scrape_with
      (\<lambda>k a. if k = 1 then ([], Inl ''boom'') else ([], Inr (Some ''LOCUS'')))
      (\<lambda>c. Inr (Some ''MK'')) [''A'', ''B'', ''C'']) ! 1 =
     \<lparr>ID = ''>B'', SEQUENCE = ''Error: boom'', estado = ''error''\<rparr> \<and>
   results (scrape_with (\<lambda>k a. ([], Inr (Some ''LOCUS''))) (\<lambda>c. Inr (Some ''MK''))
      [''A'', ''B'', ''C'']) ! 2 =
   results (scrape_with
      (\<lambda>k a. if k = 1 then ([], Inl ''boom'') else ([], Inr (Some ''LOCUS'')))
      (\<lambda>c. Inr (Some ''MK'')) [''A'', ''B'', ''C'']) ! 2"
proof -
  let ?fetch = "(\<lambda>k a. if k = 1 then ([], Inl ''boom'') else ([], Inr (Some ''LOCUS''))) :: fetcher"
  let ?fetch' = "(\<lambda>k a. ([], Inr (Some ''LOCUS''))) :: fetcher"
  let ?extr = "(\<lambda>c. Inr (Some ''MK'')) :: extractor"
  let ?accs = "[''A'', ''B'', ''C'']"
  have h1: "(1::nat) < length ?accs" by simp
  have h2: "?fetch 1 (?accs ! 1) = ([], Inl ''boom'') \<or>
      (\<exists>c. ?fetch 1 (?accs ! 1) = ([], Inr (Some c)) \<and> c \<noteq> [] \<and> ?extr c = Inl ''boom'')"
    by simp
  note fci = item_fault_caught [of 1 "?accs" "?fetch" "[]" "''boom''" "?extr", OF h1 h2]
  have a: "results (scrape_with ?fetch ?extr ?accs) ! 1 =
      \<lparr>ID = ''>B'', SEQUENCE = ''Error: boom'', estado = ''error''\<rparr>"
    using fci by simp
  have b: "results (scrape_with ?fetch' ?extr ?accs) ! 2 =
           results (scrape_with ?fetch ?extr ?accs) ! 2"
    by (rule fci [THEN conjunct2, THEN conjunct2, rule_format]) simp_all
  have c: "map estado (results (scrape_with ?fetch ?extr ?accs)) =
     [CHR 0xE9 # ''xito'', ''error'', CHR 0xE9 # ''xito'']"
    by (simp add: eval_defs)
  from a b c show ?thesis by blast
qed


lemma own_item_row_fetched:
  assumes "remote k (genbank_url a) = Inr content"
  shows "item_row (own_fetcher remote) own_extractor k a =
     (if content = [] then
        \<lparr>ID = CHR ''>'' # a, SEQUENCE = ''Error obteniendo GenBank'', estado = ''error''\<rparr>
      else (case extract_cds_translation_genbank content of
              None \<Rightarrow>
                \<lparr>ID = CHR ''>'' # a, SEQUENCE = ''No encontrada en GenBank'',
                 estado = ''secuencia no encontrada''\<rparr>
            | Some sequence \<Rightarrow>
                if sequence = [] then
                  \<lparr>ID = CHR ''>'' # a, SEQUENCE = ''No encontrada en GenBank'',
                   estado = ''secuencia no encontrada''\<rparr>
                else \<lparr>ID = CHR ''>'' # a, SEQUENCE = sequence, estado = CHR 0xE9 # ''xito''\<rparr>))"
  using assms
  by (simp add: item_row_def process_item_def branch_defs own_fetcher_def own_extractor_def
      get_genbank_content_def split: option.splits)

lemma own_nth:
  "k < length accs \<Longrightarrow>
     scrape_ncbi_sequences remote accs ! k =
       item_row (own_fetcher remote) own_extractor k (accs ! k)"
  by (simp add: scrape_ncbi_sequences_def scrape_run_def scrape_with_results)

lemmas run_defs = scrape_ncbi_sequences_def scrape_run_def scrape_with_def process_item_def
  branch_defs sleep_def own_fetcher_def own_extractor_def get_genbank_content_def
  always_reply_def



lemma sleeps_append: "sleeps (es @ fs) = sleeps es @ sleeps fs"
  by (induction es rule: sleeps.induct) simp_all

lemma sleeps_map_Print: "sleeps (map Print ms) = []"
  by (induction ms) simp_all

lemma sleeps_segments:
  "sleeps (concat (map (\<lambda>(a, ms). Print (Procesando a) # map Print ms @ [Sleep d]) segs)) =
     replicate (length segs) d"
  by (induction segs) (auto simp add: sleeps_append sleeps_map_Print)

text \<open>
  C9: the trace of a run is, for each accession of the list in order, the message
  announcing the item, the messages of its processing and then one suspension of
  length 1; so a list of \<open>n\<close> accessions gives exactly \<open>n\<close> suspensions, whatever the
  outcome of each item, the last item included.
\<close>

theorem pacing_after_every_item:
  "sleeps (trace (scrape_with fetch extr accession_list)) =
     replicate (length accession_list) 1 \<and>
   (\<exists>printed. length printed = length accession_list \<and>
      trace (scrape_with fetch extr accession_list) =
        concat (map (\<lambda>(accession, ms). Print (Procesando accession) # map Print ms @ [Sleep 1])
          (zip accession_list printed)))"
proof -
  let ?printed = "map (\<lambda>(j, a). item_messages fetch extr j a)
      (zip [0..<length accession_list] accession_list)"
  have len: "length ?printed = length accession_list" by simp
  have tr: "trace (scrape_with fetch extr accession_list) =
      concat (map (\<lambda>(accession, ms). Print (Procesando accession) # map Print ms @ [Sleep 1])
        (zip accession_list ?printed))"
    by (simp add: scrape_with_def scrape_loop_trace)
  have "sleeps (trace (scrape_with fetch extr accession_list)) =
      replicate (length accession_list) 1"
    unfolding tr sleeps_segments by simp
  with len tr show ?thesis by blast
qed

section \<open>Properties of the extraction\<close>

subsection \<open>Characters\<close>

lemma code_dquote: "code dquote = 34"
  by (simp add: code_def dquote_def)

lemma code_eq_iff: "code a = code b \<longleftrightarrow> a = b"
  by (simp add: code_def)

lemma eq_ci_dquote: "eq_ci dquote c \<longleftrightarrow> c = dquote"
proof -
  have "lower_code (code c) = 34 \<longleftrightarrow> code c = 34"
    by (simp add: lower_code_def)
  then show ?thesis
    using code_eq_iff [of c dquote] by (auto simp add: eq_ci_def code_dquote lower_code_def)
qed

lemma eq_ci_slash: "eq_ci CHR ''/'' x \<longleftrightarrow> x = CHR ''/''"
proof -
  have "code CHR ''/'' = 47" by (simp add: code_def)
  moreover have "lower_code (code x) = 47 \<longleftrightarrow> code x = 47"
    by (simp add: lower_code_def)
  ultimately show ?thesis
    using code_eq_iff [of x "CHR ''/''"] by (auto simp add: eq_ci_def lower_code_def)
qed

lemma space_not_slash: "is_space c \<Longrightarrow> \<not> eq_ci CHR ''/'' c"
  by (auto simp add: is_space_def eq_ci_def space_code_def lower_code_def code_def)

lemma length_translation_tag: "length translation_tag = 14"
  by (simp add: translation_tag_def)

subsection \<open>The matcher on the pattern of the program\<close>

lemma match_lits:
  "IGNORECASE \<in> set fl \<Longrightarrow>
   rx_match fl (map (\<lambda>c. Once (Lit c)) lit @ its) s =
     (if ci_prefix lit s then rx_match fl its (drop (length lit) s) else None)"
proof (induction lit s rule: ci_prefix.induct)
  case (1 s)
  show ?case by simp
next
  case (2 a as)
  show ?case by simp
next
  case (3 a as c cs)
  then show ?case by simp
qed

lemma match_close:
  "rx_match FLAGS [Greedy_star (Not_lit dquote), Group_close, Once (Lit dquote)] s =
     (case dropWhile (\<lambda>x. x \<noteq> dquote) s of [] \<Rightarrow> None | c # r \<Rightarrow> Some [c # r, r])"
proof (induction s)
  case Nil
  show ?case by simp
next
  case (Cons c cs)
  show ?case
  proof (cases "c = dquote")
    case True
    then show ?thesis by (simp add: eq_ci_dquote)
  next
    case False
    then show ?thesis
      by (simp add: eq_ci_dquote Cons.IH split: list.splits option.splits)
  qed
qed

lemma closing_None: "closing w = None \<longleftrightarrow> dquote \<notin> set w"
proof (cases "dropWhile (\<lambda>x. x \<noteq> dquote) w")
  case Nil
  then have "dquote \<notin> set w" by auto
  then show ?thesis unfolding closing_def Nil by simp
next
  case (Cons c r)
  then have "dropWhile (\<lambda>x. x \<noteq> dquote) w \<noteq> []" by simp
  then have "dquote \<in> set w" by auto
  with Cons show ?thesis by (simp add: closing_def)
qed

lemma match_tail:
  "rx_match FLAGS tail_items s = (if tag_head s then closing (drop 14 s) else None)"
proof -
  have len: "length translation_tag = 14"
    by (simp add: translation_tag_def)
  have "rx_match FLAGS tail_items s =
      (if ci_prefix translation_tag s
       then rx_match FLAGS [Group_open, Greedy_star (Not_lit dquote), Group_close,
              Once (Lit dquote)] (drop (length translation_tag) s)
       else None)"
    unfolding tail_items_def by (rule match_lits) simp
  also have "rx_match FLAGS [Group_open, Greedy_star (Not_lit dquote), Group_close,
        Once (Lit dquote)] (drop (length translation_tag) s) = closing (drop 14 s)"
    unfolding closing_def
    by (cases "dropWhile (\<lambda>x. x \<noteq> dquote) (drop 14 s)")
      (simp_all add: len match_close del: rx_match.simps(7) dropWhile_eq_Nil_conv)
  finally show ?thesis by (simp add: tag_head_def)
qed

lemma lazy_any_search:
  "DOTALL \<in> set fl \<Longrightarrow> rx_match fl (Lazy_star Any # its) s = rx_search fl its s"
  by (induction s) (simp_all split: option.splits)

lemma tail_not_at_space: "is_space c \<Longrightarrow> rx_match FLAGS tail_items (c # cs) = None"
  by (simp add: match_tail tag_head_def translation_tag_def space_not_slash)

lemma greedy_space_search:
  "rx_match FLAGS (Greedy_star Space # Lazy_star Any # tail_items) s = rx_search FLAGS tail_items s"
proof (induction s)
  case Nil
  show ?case by (simp add: lazy_any_search del: rx_match.simps(8))
next
  case (Cons c cs)
  show ?case
  proof (cases "is_space c")
    case True
    then show ?thesis
      using Cons.IH
      by (simp add: lazy_any_search tail_not_at_space split: option.split
          del: rx_match.simps(9))
  next
    case False
    then show ?thesis
      by (simp add: lazy_any_search del: rx_match.simps(9))
  qed
qed

lemma pattern_split:
  "pattern = map (\<lambda>c. Once (Lit c)) ''CDS'' @ Greedy_plus Space # Lazy_star Any # tail_items"
  by (simp add: pattern_def tail_items_def)

lemma match_pattern:
  "rx_match FLAGS pattern s = (if cds_head s then rx_search FLAGS tail_items (drop 4 s) else None)"
proof -
  have head: "rx_match FLAGS pattern s =
      (if ci_prefix ''CDS'' s
       then rx_match FLAGS (Greedy_plus Space # Lazy_star Any # tail_items)
              (drop (length ''CDS'') s)
       else None)"
    unfolding pattern_split by (rule match_lits) simp
  show ?thesis
  proof (cases "drop 3 s")
    case Nil
    then have three: "drop (length ''CDS'') s = []"
      by (simp add: numeral_3_eq_3)
    show ?thesis
      unfolding head three by (simp add: cds_head_def Nil)
  next
    case (Cons c r)
    have "drop 4 s = drop 1 (drop 3 s)" by simp
    then have r: "drop 4 s = r" by (simp add: Cons)
    have three: "drop (length ''CDS'') s = c # r"
      using Cons by (simp add: numeral_3_eq_3)
    show ?thesis
      unfolding head three
      by (simp add: cds_head_def Cons r greedy_space_search del: rx_match.simps(7))
  qed
qed

lemma match_pattern_Nil: "rx_match [DOTALL, IGNORECASE] pattern [] = None"
  by (simp add: match_pattern cds_head_def)

lemma match_tail_quote:
  "rx_match FLAGS tail_items s = Some m \<Longrightarrow> dquote \<in> set (drop 14 s)"
proof -
  assume "rx_match FLAGS tail_items s = Some m"
  then have "closing (drop 14 s) \<noteq> None"
    by (auto simp add: match_tail split: if_splits)
  then show ?thesis by (simp add: closing_None)
qed

lemma search_tail_quote:
  "rx_search FLAGS tail_items s = Some m \<Longrightarrow> dquote \<in> set (drop 14 s)"
proof (induction s)
  case Nil
  then show ?case by (auto dest: match_tail_quote)
next
  case (Cons x xs)
  show ?case
  proof (cases "rx_match FLAGS tail_items (x # xs)")
    case (Some m')
    then show ?thesis by (rule match_tail_quote)
  next
    case None
    with Cons.prems have "rx_search FLAGS tail_items xs = Some m" by simp
    then have "dquote \<in> set (drop 14 xs)" by (rule Cons.IH)
    moreover have "set (drop 14 xs) \<subseteq> set (drop 13 xs)"
      by (rule set_drop_subset_set_drop) simp
    ultimately show ?thesis by auto
  qed
qed

lemma search_tail:
  "rx_search FLAGS tail_items t =
     (case first_suffix tag_head t of None \<Rightarrow> None | Some v \<Rightarrow> closing (drop 14 v))"
proof (induction t)
  case Nil
  show ?case by (simp add: match_tail tag_head_def translation_tag_def)
next
  case (Cons x xs)
  show ?case
  proof (cases "tag_head (x # xs)")
    case False
    then show ?thesis by (simp add: match_tail Cons.IH)
  next
    case True
    show ?thesis
    proof (cases "closing (drop 14 (x # xs))")
      case (Some m)
      with True show ?thesis by (simp add: match_tail)
    next
      case None
      then have noq: "dquote \<notin> set (drop 13 xs)"
        by (simp add: closing_None)
      have "rx_search FLAGS tail_items xs = None"
      proof (cases "rx_search FLAGS tail_items xs")
        case None
        then show ?thesis .
      next
        case (Some m)
        then have "dquote \<in> set (drop 14 xs)" by (rule search_tail_quote)
        moreover have "set (drop 14 xs) \<subseteq> set (drop 13 xs)"
          by (rule set_drop_subset_set_drop) simp
        ultimately show ?thesis using noq by auto
      qed
      with True None show ?thesis by (simp add: match_tail)
    qed
  qed
qed

lemma drop_tl_Cons: "drop n xs = tl (drop n (x # xs))"
  by (cases n) (simp_all add: drop_Suc tl_drop)

lemma search_tl: "rx_search fl its (tl s) = Some m \<Longrightarrow> rx_search fl its s \<noteq> None"
  by (cases s) (auto split: option.splits)

lemma search_pattern_tail:
  "rx_search FLAGS pattern s = Some m \<Longrightarrow> rx_search FLAGS tail_items (drop 4 s) \<noteq> None"
proof (induction s arbitrary: m)
  case Nil
  then show ?case by (simp add: match_pattern cds_head_def)
next
  case (Cons x xs)
  show ?case
  proof (cases "rx_match FLAGS pattern (x # xs)")
    case (Some m')
    then show ?thesis by (auto simp add: match_pattern split: if_splits)
  next
    case None
    with Cons.prems have "rx_search FLAGS pattern xs = Some m" by simp
    then obtain m' where "rx_search FLAGS tail_items (drop 4 xs) = Some m'"
      using Cons.IH by blast
    moreover have "drop 4 xs = tl (drop 4 (x # xs))"
      by (rule drop_tl_Cons)
    ultimately show ?thesis by (metis search_tl)
  qed
qed

lemma search_pattern:
  "rx_search FLAGS pattern c =
     (case first_suffix cds_head c of
        None \<Rightarrow> None
      | Some u \<Rightarrow> rx_search FLAGS tail_items (drop 4 u))"
proof (induction c)
  case Nil
  show ?case by (simp add: match_pattern cds_head_def)
next
  case (Cons x xs)
  show ?case
  proof (cases "cds_head (x # xs)")
    case False
    then show ?thesis by (simp add: match_pattern Cons.IH)
  next
    case True
    show ?thesis
    proof (cases "rx_search FLAGS tail_items (drop 4 (x # xs))")
      case (Some m)
      with True show ?thesis by (simp add: match_pattern)
    next
      case None
      have "rx_search FLAGS pattern xs = None"
      proof (cases "rx_search FLAGS pattern xs")
        case None
        then show ?thesis .
      next
        case (Some m)
        then obtain m' where "rx_search FLAGS tail_items (drop 4 xs) = Some m'"
          using search_pattern_tail by blast
        moreover have "drop 4 xs = tl (drop 4 (x # xs))"
          by (rule drop_tl_Cons)
        ultimately show ?thesis using None by (metis search_tl)
      qed
      with True None show ?thesis by (simp add: match_pattern)
    qed
  qed
qed

lemma search_prepend:
  "rx_search fl its u \<noteq> None \<Longrightarrow> rx_search fl its (pre @ u) \<noteq> None"
  by (induction pre) (auto split: option.splits)

lemma match_search: "rx_match fl its u \<noteq> None \<Longrightarrow> rx_search fl its u \<noteq> None"
  by (cases u) (auto split: option.splits)

subsection \<open>The extractor returns the first translation\<close>

lemma group1_closing: "closing w = Some m \<Longrightarrow> group1 m = takeWhile (\<lambda>x. x \<noteq> dquote) w"
proof -
  assume "closing w = Some m"
  then obtain c r where d: "dropWhile (\<lambda>x. x \<noteq> dquote) w = c # r" and m: "m = [w, c # r, r]"
    by (auto simp add: closing_def split: list.splits)
  have "length (takeWhile (\<lambda>x. x \<noteq> dquote) w) + length (dropWhile (\<lambda>x. x \<noteq> dquote) w) =
      length w"
    by (metis length_append takeWhile_dropWhile_id)
  then have "length w - length (c # r) = length (takeWhile (\<lambda>x. x \<noteq> dquote) w)"
    using d by simp
  then show ?thesis
    unfolding m group1_def by (simp add: takeWhile_eq_take [symmetric])
qed

lemma closing_quoted: "map_option group1 (closing w) = quoted w"
proof (cases "closing w")
  case None
  then show ?thesis by (simp add: closing_None quoted_def)
next
  case (Some m)
  then have "closing w \<noteq> None" by simp
  then have "dquote \<in> set w" by (simp add: closing_None)
  with Some show ?thesis by (simp add: quoted_def group1_closing)
qed

lemma raw_translation:
  "map_option group1 (rx_search FLAGS pattern c) = first_raw_translation c"
  by (simp add: search_pattern search_tail first_raw_translation_def closing_quoted
      split: option.splits)

lemma match_spaces: "rx_match fl [Greedy_star Space] s = Some [dropWhile is_space s]"
  by (induction s) simp_all

lemma filter_dropWhile: "filter (\<lambda>x. \<not> P x) (dropWhile P xs) = filter (\<lambda>x. \<not> P x) xs"
  by (induction xs) simp_all

lemma remove_spaces_aux:
  "its = [Greedy_plus Space] \<Longrightarrow> rx_remove fl its s = filter (\<lambda>x. \<not> is_space x) s"
proof (induction fl its s rule: rx_remove.induct)
  case (1 fl its)
  show ?case by simp
next
  case (2 fl its c cs)
  note its = "2.prems"
  show ?case
  proof (cases "is_space c")
    case True
    then have m: "rx_match fl its (c # cs) = Some [dropWhile is_space cs]"
      by (simp add: its match_spaces)
    have le: "length (last [dropWhile is_space cs]) \<le> length cs"
      by (simp add: length_dropWhile_le)
    have "rx_remove fl its (last [dropWhile is_space cs]) =
        filter (\<lambda>x. \<not> is_space x) (last [dropWhile is_space cs])"
      using m le its by (rule "2.IH"(2))
    then show ?thesis
      using True m le by (simp add: filter_dropWhile)
  next
    case False
    then have m: "rx_match fl its (c # cs) = None" by (simp add: its)
    have "rx_remove fl its cs = filter (\<lambda>x. \<not> is_space x) cs"
      using m its by (rule "2.IH"(1))
    then show ?thesis using False m by simp
  qed
qed

lemma remove_spaces: "rx_remove fl [Greedy_plus Space] s = filter (\<lambda>x. \<not> is_space x) s"
  by (rule remove_spaces_aux) simp

theorem extract_first:
  "extract_cds_translation_genbank c =
     map_option (filter (\<lambda>x. \<not> is_space x)) (first_raw_translation c)"
  unfolding raw_translation [symmetric]
  by (simp add: extract_cds_translation_genbank_def remove_spaces split: option.splits)

subsection \<open>Contents with and without a pair\<close>

lemma ci_prefix_append: "list_all2 eq_ci lit kw \<Longrightarrow> ci_prefix lit (kw @ r)"
  by (induction lit kw rule: list_all2_induct) simp_all

lemma ci_prefix_split:
  "ci_prefix lit s \<Longrightarrow>
     list_all2 eq_ci lit (take (length lit) s) \<and> s = take (length lit) s @ drop (length lit) s"
  by (induction lit s rule: ci_prefix.induct) simp_all

lemma ci_prefix_length: "ci_prefix lit s \<Longrightarrow> length lit \<le> length s"
  by (induction lit s rule: ci_prefix.induct) simp_all

lemma ci_prefix_append_long:
  "length lit \<le> length v \<Longrightarrow> ci_prefix lit (v @ r) = ci_prefix lit v"
  by (induction lit v rule: ci_prefix.induct) simp_all

lemma length_eq_ci: "list_all2 eq_ci lit kw \<Longrightarrow> length kw = length lit"
  by (simp add: list_all2_lengthD)

lemma first_suffix_here: "P s \<Longrightarrow> first_suffix P s = Some s"
  by (cases s) simp_all

lemma first_suffix_Some: "first_suffix P s = Some u \<Longrightarrow> P u \<and> (\<exists>pre. s = pre @ u)"
proof (induction s)
  case Nil
  then show ?case by (simp split: if_splits)
next
  case (Cons c cs)
  show ?case
  proof (cases "P (c # cs)")
    case True
    with Cons.prems show ?thesis by auto
  next
    case False
    with Cons.prems have "first_suffix P cs = Some u" by simp
    then have "P u \<and> (\<exists>pre. cs = pre @ u)" by (rule Cons.IH)
    then obtain pre where "P u" "cs = pre @ u" by blast
    then have "c # cs = (c # pre) @ u" by simp
    with \<open>P u\<close> show ?thesis by blast
  qed
qed

lemma first_suffix_length: "first_suffix P s = Some u \<Longrightarrow> length u \<le> length s"
  by (auto dest: first_suffix_Some)

lemma first_suffix_append:
  assumes "first_suffix P s = Some u"
    and "n \<le> length u"
    and "\<And>v. n \<le> length v \<Longrightarrow> P (v @ r) = P v"
  shows "first_suffix P (s @ r) = Some (u @ r)"
  using assms(1)
proof (induction s)
  case Nil
  then have "u = []" and "P []" by (simp_all split: if_splits)
  with assms(2) assms(3) [of "[]"] have "P r" by simp
  then show ?case using \<open>u = []\<close> by (simp add: first_suffix_here)
next
  case (Cons c cs)
  show ?case
  proof (cases "P (c # cs)")
    case True
    with Cons.prems have u: "u = c # cs" by simp
    with assms(2) have "P ((c # cs) @ r) = P (c # cs)" by (intro assms(3)) simp
    with True u show ?thesis by simp
  next
    case False
    with Cons.prems have rec: "first_suffix P cs = Some u" by simp
    then have "length u \<le> length cs" by (rule first_suffix_length)
    with assms(2) have "P ((c # cs) @ r) = P (c # cs)" by (intro assms(3)) simp
    with False Cons.IH [OF rec] show ?thesis by simp
  qed
qed

lemma has_imp_search:
  assumes "has_cds_translation c"
  shows "rx_search FLAGS pattern c \<noteq> None"
proof -
  from assms obtain pre kw sp mid tag payload post where
    c: "c = pre @ kw @ sp # mid @ tag @ payload @ dquote # post"
    and kw: "list_all2 eq_ci ''CDS'' kw" and sp: "is_space sp"
    and tag: "list_all2 eq_ci translation_tag tag"
    unfolding has_cds_translation_def by blast
  let ?t = "tag @ payload @ dquote # post"
  let ?u = "kw @ sp # mid @ ?t"
  have ltag: "length tag = 14"
    using length_eq_ci [OF tag] by (simp add: translation_tag_def)
  have lkw: "length kw = 3"
    using length_eq_ci [OF kw] by simp
  have "tag_head ?t"
    unfolding tag_head_def using tag by (rule ci_prefix_append)
  moreover have "closing (drop 14 ?t) \<noteq> None"
    by (simp add: ltag closing_None)
  ultimately have "rx_match FLAGS tail_items ?t \<noteq> None"
    by (simp add: match_tail)
  then have "rx_search FLAGS tail_items ?t \<noteq> None"
    by (rule match_search)
  then have tail: "rx_search FLAGS tail_items (mid @ ?t) \<noteq> None"
    by (rule search_prepend)
  have "ci_prefix ''CDS'' ?u"
    using kw by (rule ci_prefix_append)
  then have "cds_head ?u"
    by (simp add: cds_head_def lkw sp)
  moreover have "drop 4 ?u = mid @ ?t"
    by (simp add: lkw)
  ultimately have "rx_match FLAGS pattern ?u \<noteq> None"
    using tail by (simp add: match_pattern)
  then have "rx_search FLAGS pattern ?u \<noteq> None"
    by (rule match_search)
  then have "rx_search FLAGS pattern (pre @ ?u) \<noteq> None"
    by (rule search_prepend)
  then show ?thesis by (simp add: c)
qed

lemma raw_imp_has:
  assumes "first_raw_translation c = Some p"
  shows "has_cds_translation c"
proof -
  from assms obtain u where u: "first_suffix cds_head c = Some u"
    by (auto simp add: first_raw_translation_def split: option.splits)
  with assms obtain v where v: "first_suffix tag_head (drop 4 u) = Some v"
    by (auto simp add: first_raw_translation_def split: option.splits)
  with assms u have q: "quoted (drop 14 v) = Some p"
    by (simp add: first_raw_translation_def)
  from first_suffix_Some [OF u] obtain pre where head: "cds_head u" and c: "c = pre @ u"
    by blast
  from first_suffix_Some [OF v] obtain mid where tagh: "tag_head v" and d: "drop 4 u = mid @ v"
    by blast
  from head have cp: "ci_prefix ''CDS'' u" and "drop 3 u \<noteq> []" and sp: "is_space (hd (drop 3 u))"
    by (auto simp add: cds_head_def split: list.splits)
  then have d3: "drop 3 u = hd (drop 3 u) # drop 4 u"
    by (cases "drop 3 u") (simp_all add: drop_Suc tl_drop [symmetric] numeral_eq_Suc)
  from ci_prefix_split [OF cp] have kw: "list_all2 eq_ci ''CDS'' (take 3 u)"
    and "u = take 3 u @ drop 3 u"
    by (simp_all add: numeral_3_eq_3)
  with d3 d have u_eq: "u = take 3 u @ hd (drop 3 u) # mid @ v" by simp
  from tagh have "ci_prefix translation_tag v" by (simp add: tag_head_def)
  have len: "length translation_tag = 14"
    by (simp add: translation_tag_def)
  from ci_prefix_split [OF \<open>ci_prefix translation_tag v\<close>, unfolded len]
  have tag: "list_all2 eq_ci translation_tag (take 14 v)"
    and v_eq: "v = take 14 v @ drop 14 v"
    by simp_all
  from q have "dquote \<in> set (drop 14 v)"
    by (simp add: quoted_def split: if_splits)
  then obtain payload post where "drop 14 v = payload @ dquote # post"
    by (auto dest: split_list)
  with v_eq have "v = take 14 v @ payload @ dquote # post" by simp
  with u_eq c have
    "c = pre @ take 3 u @ hd (drop 3 u) # mid @ take 14 v @ payload @ dquote # post"
    by simp
  with kw sp tag show ?thesis
    unfolding has_cds_translation_def by blast
qed

lemma extract_None_iff:
  "extract_cds_translation_genbank c = None \<longleftrightarrow> \<not> has_cds_translation c"
proof
  assume "extract_cds_translation_genbank c = None"
  then have "first_raw_translation c = None" by (simp add: extract_first)
  then have "rx_search FLAGS pattern c = None"
    by (simp add: raw_translation [symmetric])
  then show "\<not> has_cds_translation c" using has_imp_search by blast
next
  assume "\<not> has_cds_translation c"
  then have "first_raw_translation c = None"
    using raw_imp_has by (cases "first_raw_translation c") auto
  then show "extract_cds_translation_genbank c = None" by (simp add: extract_first)
qed

subsection \<open>What follows the first pair does not matter\<close>

lemma cds_head_append: "4 \<le> length v \<Longrightarrow> cds_head (v @ r) = cds_head v"
proof -
  assume len: "4 \<le> length v"
  then have "drop 3 v \<noteq> []" by simp
  then obtain x xs where "drop 3 v = x # xs" by (cases "drop 3 v") auto
  moreover from len have "ci_prefix ''CDS'' (v @ r) = ci_prefix ''CDS'' v"
    by (intro ci_prefix_append_long) simp
  ultimately show ?thesis using len by (simp add: cds_head_def)
qed

lemma cds_head_length: "cds_head u \<Longrightarrow> 4 \<le> length u"
proof -
  assume "cds_head u"
  then have "drop 3 u \<noteq> []" by (auto simp add: cds_head_def)
  then show ?thesis by simp
qed

lemma tag_head_append: "14 \<le> length v \<Longrightarrow> tag_head (v @ r) = tag_head v"
  unfolding tag_head_def by (rule ci_prefix_append_long) (simp add: length_translation_tag)

lemma tag_head_length: "tag_head v \<Longrightarrow> 14 \<le> length v"
  unfolding tag_head_def using ci_prefix_length [of translation_tag v]
  by (simp add: length_translation_tag)

lemma quoted_append: "quoted w = Some p \<Longrightarrow> quoted (w @ r) = Some p"
  by (auto simp add: quoted_def takeWhile_append1 split: if_splits)

lemma raw_append:
  assumes "first_raw_translation c = Some p"
  shows "first_raw_translation (c @ r) = Some p"
proof -
  from assms obtain u where u: "first_suffix cds_head c = Some u"
    by (auto simp add: first_raw_translation_def split: option.splits)
  with assms obtain v where v: "first_suffix tag_head (drop 4 u) = Some v"
    by (auto simp add: first_raw_translation_def split: option.splits)
  with assms u have q: "quoted (drop 14 v) = Some p"
    by (simp add: first_raw_translation_def)
  from first_suffix_Some [OF u] have lu: "4 \<le> length u"
    by (auto intro: cds_head_length)
  from first_suffix_Some [OF v] have lv: "14 \<le> length v"
    by (auto intro: tag_head_length)
  have u': "first_suffix cds_head (c @ r) = Some (u @ r)"
    using u lu by (rule first_suffix_append) (rule cds_head_append)
  have "first_suffix tag_head (drop 4 u @ r) = Some (v @ r)"
    using v lv by (rule first_suffix_append) (rule tag_head_append)
  with lu have v': "first_suffix tag_head (drop 4 (u @ r)) = Some (v @ r)" by simp
  from q have "quoted (drop 14 v @ r) = Some p" by (rule quoted_append)
  with lv have "quoted (drop 14 (v @ r)) = Some p" by simp
  with u' v' show ?thesis by (simp add: first_raw_translation_def)
qed

lemma extract_append:
  "extract_cds_translation_genbank c = Some t \<Longrightarrow>
     extract_cds_translation_genbank (c @ r) = Some t"
  by (auto simp add: extract_first dest: raw_append)

lemma first_tag_after:
  "CHR ''/'' \<notin> set mid \<Longrightarrow> tag_head t \<Longrightarrow> first_suffix tag_head (mid @ t) = Some t"
proof (induction mid)
  case Nil
  then show ?case by (simp add: first_suffix_here)
next
  case (Cons x mid)
  from Cons.prems have "x \<noteq> CHR ''/''" by auto
  then have "\<not> tag_head (x # mid @ t)"
    by (simp add: tag_head_def translation_tag_def eq_ci_slash)
  with Cons show ?case by simp
qed

lemma first_head_after:
  "\<forall>x\<in>set pre. \<not> eq_ci CHR ''C'' x \<Longrightarrow> cds_head u \<Longrightarrow>
     first_suffix cds_head (pre @ u) = Some u"
proof (induction pre)
  case Nil
  then show ?case by (simp add: first_suffix_here)
next
  case (Cons x pre)
  then have "\<not> cds_head (x # pre @ u)"
    by (simp add: cds_head_def)
  with Cons show ?case by simp
qed

lemma extract_pair:
  assumes pre: "\<forall>x\<in>set pre. \<not> eq_ci CHR ''C'' x"
    and kw: "list_all2 eq_ci ''CDS'' kw"
    and sp: "is_space sp"
    and mid: "CHR ''/'' \<notin> set mid"
    and tag: "list_all2 eq_ci translation_tag tag"
    and payload: "dquote \<notin> set payload"
  shows "extract_cds_translation_genbank
      (pre @ kw @ sp # mid @ tag @ payload @ dquote # rest) =
    Some (filter (\<lambda>x. \<not> is_space x) payload)"
proof -
  let ?t = "tag @ payload @ dquote # rest"
  let ?u = "kw @ sp # mid @ ?t"
  have ltag: "length tag = 14"
    using length_eq_ci [OF tag] by (simp add: translation_tag_def)
  have lkw: "length kw = 3"
    using length_eq_ci [OF kw] by simp
  have "ci_prefix ''CDS'' ?u"
    using kw by (rule ci_prefix_append)
  then have "cds_head ?u"
    by (simp add: cds_head_def lkw sp)
  with pre have u: "first_suffix cds_head (pre @ ?u) = Some ?u"
    by (rule first_head_after)
  have "tag_head ?t"
    unfolding tag_head_def using tag by (rule ci_prefix_append)
  with mid have "first_suffix tag_head (mid @ ?t) = Some ?t"
    by (rule first_tag_after)
  then have v: "first_suffix tag_head (drop 4 ?u) = Some ?t"
    by (simp add: lkw)
  have "quoted (payload @ dquote # rest) = Some payload"
    using payload by (auto simp add: quoted_def takeWhile_tail)
  then have "quoted (drop 14 ?t) = Some payload"
    by (simp add: ltag)
  with u v have "first_raw_translation (pre @ ?u) = Some payload"
    by (simp add: first_raw_translation_def)
  then show ?thesis by (simp add: extract_first)
qed

subsection \<open>The claims on the extraction\<close>

text \<open>
  C4, as the program has it: when the content fetched for item \<open>k\<close> is not empty and
  holds no CDS feature followed by a quoted \<open>/translation=\<close> attribute, the extractor
  returns \<open>None\<close> and the row of item \<open>k\<close> has the status \<open>secuencia no encontrada\<close> and
  the fixed payload \<open>No encontrada en GenBank\<close>, which differ from those of a failed fetch.
\<close>

theorem no_pair_not_found:
  "(\<not> has_cds_translation c \<longrightarrow> extract_cds_translation_genbank c = None) \<and>
   (k < length accs \<and> remote k (genbank_url (accs ! k)) = Inr content \<and> content \<noteq> [] \<and>
    \<not> has_cds_translation content \<longrightarrow>
      scrape_ncbi_sequences remote accs ! k =
        \<lparr>ID = CHR ''>'' # accs ! k, SEQUENCE = ''No encontrada en GenBank'',
         estado = ''secuencia no encontrada''\<rparr>)"
proof (intro conjI impI)
  show "extract_cds_translation_genbank c = None" if "\<not> has_cds_translation c"
    using that by (simp add: extract_None_iff)
  assume a: "k < length accs \<and> remote k (genbank_url (accs ! k)) = Inr content \<and>
    content \<noteq> [] \<and> \<not> has_cds_translation content"
  then have "extract_cds_translation_genbank content = None"
    by (simp add: extract_None_iff)
  with a show "scrape_ncbi_sequences remote accs ! k =
        \<lparr>ID = CHR ''>'' # accs ! k, SEQUENCE = ''No encontrada en GenBank'',
         estado = ''secuencia no encontrada''\<rparr>"
    by (simp add: own_nth own_item_row_fetched)
qed

theorem no_pair_not_found_witness:
  "extract_cds_translation_genbank ''LOCUS'' = None \<and>
   scrape_ncbi_sequences (always_reply (Inr ''LOCUS'')) [''AB123''] ! 0 =
     \<lparr>ID = ''>AB123'', SEQUENCE = ''No encontrada en GenBank'',
      estado = ''secuencia no encontrada''\<rparr>"
proof -
  have "extract_cds_translation_genbank ''LOCUS'' = None" by code_simp
  then have h: "\<not> has_cds_translation ''LOCUS''" by (simp add: extract_None_iff)
  have "(0::nat) < length [''AB123''] \<and>
      always_reply (Inr ''LOCUS'') 0 (genbank_url ([''AB123''] ! 0)) = Inr ''LOCUS'' \<and>
      ''LOCUS'' \<noteq> [] \<and> \<not> has_cds_translation ''LOCUS''"
    using h by (simp add: always_reply_def)
  with h show ?thesis
    using no_pair_not_found [where c = "''LOCUS''" and remote = "always_reply (Inr ''LOCUS'')"
        and k = 0 and accs = "[''AB123'']" and content = "''LOCUS''"]
    by simp
qed

text \<open>
  C4 without the restriction to non-empty content fails: an empty content holds no
  such feature and the extractor returns \<open>None\<close> on it, but the loop body tests the
  content for truth before it extracts, so the row of the item is that of a failed fetch.
\<close>

theorem empty_content_is_error:
  "\<not> has_cds_translation [] \<and>
   extract_cds_translation_genbank [] = None \<and>
   scrape_ncbi_sequences (always_reply (Inr [])) [''AB123''] =
     [\<lparr>ID = ''>AB123'', SEQUENCE = ''Error obteniendo GenBank'', estado = ''error''\<rparr>] \<and>
   estado (scrape_ncbi_sequences (always_reply (Inr [])) [''AB123''] ! 0) \<noteq>
     ''secuencia no encontrada''"
proof -
  have e: "extract_cds_translation_genbank [] = None" by code_simp
  then have "\<not> has_cds_translation []" by (simp add: extract_None_iff)
  moreover have "scrape_ncbi_sequences (always_reply (Inr [])) [''AB123''] =
     [\<lparr>ID = ''>AB123'', SEQUENCE = ''Error obteniendo GenBank'', estado = ''error''\<rparr>]"
    by (simp add: run_defs)
  ultimately show ?thesis using e by simp
qed

text \<open>
  C5: what the extractor returns is the quoted payload of the match without any of its
  whitespace characters, line breaks included; for a content that holds
  \<open>CDS ... /translation="ABC DE\nF"\<close>, behind any text without the letter C and before any
  text, it returns \<open>ABCDEF\<close>.
\<close>

theorem whitespace_stripped:
  "extract_cds_translation_genbank c =
     map_option (\<lambda>raw_sequence. filter (\<lambda>x. \<not> is_space x) raw_sequence)
       (map_option group1 (rx_search [DOTALL, IGNORECASE] pattern c)) \<and>
   is_space newline \<and>
   ((\<forall>x\<in>set pre. \<not> eq_ci CHR ''C'' x) \<longrightarrow>
      extract_cds_translation_genbank
        (pre @ ''CDS ... /translation='' @ [dquote] @ ''ABC DE'' @ [newline] @ ''F'' @
         [dquote] @ rest) = Some ''ABCDEF'')"
proof (intro conjI impI)
  show "extract_cds_translation_genbank c =
     map_option (\<lambda>raw_sequence. filter (\<lambda>x. \<not> is_space x) raw_sequence)
       (map_option group1 (rx_search [DOTALL, IGNORECASE] pattern c))"
    by (simp add: extract_cds_translation_genbank_def remove_spaces split: option.splits)
  show nl: "is_space newline"
    by (simp add: is_space_def newline_def code_def space_code_def)
  assume pre: "\<forall>x\<in>set pre. \<not> eq_ci CHR ''C'' x"
  have kw: "list_all2 eq_ci ''CDS'' ''CDS''"
    by (simp add: eq_ci_def)
  have sp: "is_space CHR '' ''"
    by (simp add: is_space_def code_def space_code_def)
  have mid: "CHR ''/'' \<notin> set ''... ''" by simp
  have tag: "list_all2 eq_ci translation_tag translation_tag"
    by (simp add: eq_ci_def list_all2_refl)
  have payload: "dquote \<notin> set (''ABC DE'' @ [newline] @ ''F'')"
    by (simp add: dquote_def newline_def)
  have "filter (\<lambda>x. \<not> is_space x) (''ABC DE'' @ [newline] @ ''F'') = ''ABCDEF''"
    by (simp add: nl) (simp add: is_space_def code_def space_code_def)
  with extract_pair [OF pre kw sp mid tag payload, of rest]
  show "extract_cds_translation_genbank
        (pre @ ''CDS ... /translation='' @ [dquote] @ ''ABC DE'' @ [newline] @ ''F'' @
         [dquote] @ rest) = Some ''ABCDEF''"
    by (simp add: translation_tag_def)
qed

theorem whitespace_stripped_witness:
  "extract_cds_translation_genbank
     (''FEATURES '' @ ''CDS ... /translation='' @ [dquote] @ ''ABC DE'' @ [newline] @ ''F'' @
      [dquote] @ ''//'') = Some ''ABCDEF''"
proof -
  have "\<forall>x\<in>set ''FEATURES ''. \<not> eq_ci CHR ''C'' x"
    by (simp add: eq_ci_def code_def lower_code_def)
  with whitespace_stripped [of "[]" "''FEATURES ''" "''//''"] show ?thesis by blast
qed

text \<open>
  C6: the keyword and the tag are matched in any letter case, and the text between them
  may be any text without \<open>/\<close>, line breaks included; the payload of the pair is returned
  without its whitespace. In particular a lower-case \<open>cds\<close> followed two lines further
  down by \<open>/translation="XYZ"\<close> yields \<open>XYZ\<close>.
\<close>

theorem case_insensitive_across_lines:
  "((\<forall>x\<in>set pre. \<not> eq_ci CHR ''C'' x) \<and> list_all2 eq_ci ''CDS'' kw \<and> is_space sp \<and>
      CHR ''/'' \<notin> set mid \<and> list_all2 eq_ci translation_tag tag \<and> dquote \<notin> set payload \<longrightarrow>
      extract_cds_translation_genbank (pre @ kw @ sp # mid @ tag @ payload @ dquote # rest) =
        Some (filter (\<lambda>x. \<not> is_space x) payload)) \<and>
   (has_cds_translation content \<longrightarrow> extract_cds_translation_genbank content \<noteq> None) \<and>
   list_all2 eq_ci ''CDS'' ''cds'' \<and>
   extract_cds_translation_genbank
     (''cds'' @ [newline] @ ''  1..9'' @ [newline] @ ''  /translation='' @ [dquote] @ ''XYZ'' @
      [dquote]) = Some ''XYZ''"
proof (intro conjI impI)
  show "extract_cds_translation_genbank content \<noteq> None" if "has_cds_translation content"
    using that by (simp add: extract_None_iff)
next
  assume "(\<forall>x\<in>set pre. \<not> eq_ci CHR ''C'' x) \<and> list_all2 eq_ci ''CDS'' kw \<and> is_space sp \<and>
      CHR ''/'' \<notin> set mid \<and> list_all2 eq_ci translation_tag tag \<and> dquote \<notin> set payload"
  then show "extract_cds_translation_genbank
      (pre @ kw @ sp # mid @ tag @ payload @ dquote # rest) =
        Some (filter (\<lambda>x. \<not> is_space x) payload)"
    by (intro extract_pair) simp_all
next
  show "list_all2 eq_ci ''CDS'' ''cds''"
    by (simp add: eq_ci_def code_def lower_code_def)
next
  show "extract_cds_translation_genbank
     (''cds'' @ [newline] @ ''  1..9'' @ [newline] @ ''  /translation='' @ [dquote] @ ''XYZ'' @
      [dquote]) = Some ''XYZ''"
    by code_simp
qed

theorem case_insensitive_across_lines_witness:
  "has_cds_translation
     (''ORIGIN '' @ ''cDs'' @ newline # (''  1..9'' @ [newline] @ ''    '') @
      (''/Translation='' @ [dquote]) @ ''XYZ'' @ dquote # ''//'') \<and>
   extract_cds_translation_genbank
     (''ORIGIN '' @ ''cDs'' @ newline # (''  1..9'' @ [newline] @ ''    '') @
      (''/Translation='' @ [dquote]) @ ''XYZ'' @ dquote # ''//'') \<noteq> None \<and>
   extract_cds_translation_genbank
     (''ORIGIN '' @ ''cDs'' @ newline # (''  1..9'' @ [newline] @ ''    '') @
      (''/Translation='' @ [dquote]) @ ''XYZ'' @ dquote # ''//'') = Some ''XYZ''"
proof -
  let ?content = "''ORIGIN '' @ ''cDs'' @ newline # (''  1..9'' @ [newline] @ ''    '') @
      (''/Translation='' @ [dquote]) @ ''XYZ'' @ dquote # ''//''"
  have parts: "(\<forall>x\<in>set ''ORIGIN ''. \<not> eq_ci CHR ''C'' x) \<and> list_all2 eq_ci ''CDS'' ''cDs'' \<and>
      is_space newline \<and> CHR ''/'' \<notin> set (''  1..9'' @ [newline] @ ''    '') \<and>
      list_all2 eq_ci translation_tag (''/Translation='' @ [dquote]) \<and>
      dquote \<notin> set ''XYZ''"
    by (simp add: eq_ci_def code_def lower_code_def is_space_def space_code_def newline_def
        dquote_def translation_tag_def)
  then have has: "has_cds_translation ?content"
    unfolding has_cds_translation_def by blast
  have "filter (\<lambda>x. \<not> is_space x) ''XYZ'' = ''XYZ''"
    by (simp add: is_space_def code_def space_code_def)
  with parts has show ?thesis
    using case_insensitive_across_lines [of "''ORIGIN ''" "''cDs''" newline
        "''  1..9'' @ [newline] @ ''    ''" "''/Translation='' @ [dquote]" "''XYZ''" "''//''"
        ?content]
    by simp
qed

text \<open>
  C7: the extractor returns the translation of the first pair of the content and nothing
  else: its result is \<open>first_translation\<close>, and once a content yields a translation, that
  is also the result for the content followed by any further text, further pairs
  included. With two features carrying \<open>MKV\<close> and \<open>AAA\<close> the result is \<open>MKV\<close>.
\<close>

theorem first_pair_only:
  "extract_cds_translation_genbank content = first_translation content \<and>
   (extract_cds_translation_genbank content = Some t \<longrightarrow>
      extract_cds_translation_genbank (content @ rest) = Some t) \<and>
   extract_cds_translation_genbank
     (''CDS 1..9 /translation='' @ [dquote] @ ''MKV'' @ [dquote] @
      '' CDS 20..30 /translation='' @ [dquote] @ ''AAA'' @ [dquote]) = Some ''MKV''"
proof (intro conjI impI)
  show "extract_cds_translation_genbank content = first_translation content"
    by (simp add: extract_first first_translation_def)
  show "extract_cds_translation_genbank (content @ rest) = Some t"
    if "extract_cds_translation_genbank content = Some t"
    using that by (rule extract_append)
  show "extract_cds_translation_genbank
     (''CDS 1..9 /translation='' @ [dquote] @ ''MKV'' @ [dquote] @
      '' CDS 20..30 /translation='' @ [dquote] @ ''AAA'' @ [dquote]) = Some ''MKV''"
    by code_simp
qed

theorem first_pair_only_witness:
  "extract_cds_translation_genbank
     (''CDS 1..9 /translation='' @ [dquote] @ ''MKV'' @ [dquote]) = Some ''MKV'' \<and>
   extract_cds_translation_genbank
     ((''CDS 1..9 /translation='' @ [dquote] @ ''MKV'' @ [dquote]) @
      '' CDS 20..30 /translation='' @ [dquote] @ ''AAA'' @ [dquote]) = Some ''MKV''"
proof -
  have h: "extract_cds_translation_genbank
     (''CDS 1..9 /translation='' @ [dquote] @ ''MKV'' @ [dquote]) = Some ''MKV''"
    by code_simp
  with first_pair_only [of "''CDS 1..9 /translation='' @ [dquote] @ ''MKV'' @ [dquote]"
      "''MKV''" "'' CDS 20..30 /translation='' @ [dquote] @ ''AAA'' @ [dquote]"]
  show ?thesis by blast
qed

text \<open>
  C10: when the content fetched for item \<open>k\<close> matches the pattern with an empty quoted
  payload, the extractor returns the empty string, and the row of item \<open>k\<close> has the
  status \<open>secuencia no encontrada\<close> and the payload \<open>No encontrada en GenBank\<close>.
\<close>

theorem empty_translation_not_found:
  assumes "k < length accs"
    and "remote k (genbank_url (accs ! k)) = Inr content"
    and "map_option group1 (rx_search [DOTALL, IGNORECASE] pattern content) = Some []"
  shows "extract_cds_translation_genbank content = Some [] \<and>
     scrape_ncbi_sequences remote accs ! k =
       \<lparr>ID = CHR ''>'' # accs ! k, SEQUENCE = ''No encontrada en GenBank'',
        estado = ''secuencia no encontrada''\<rparr>"
proof -
  from assms(3) have ne: "content \<noteq> []"
    by (auto simp add: match_pattern_Nil)
  from assms(3) have "extract_cds_translation_genbank content = Some []"
    by (auto simp add: extract_cds_translation_genbank_def remove_spaces)
  with assms(1,2) ne show ?thesis
    by (simp add: own_nth own_item_row_fetched)
qed

theorem empty_translation_not_found_witness:
  "extract_cds_translation_genbank (''CDS  /translation='' @ [dquote, dquote]) = Some [] \<and>
   scrape_ncbi_sequences (always_reply (Inr (''CDS  /translation='' @ [dquote, dquote])))
     [''AB123''] ! 0 =
     \<lparr>ID = ''>AB123'', SEQUENCE = ''No encontrada en GenBank'',
      estado = ''secuencia no encontrada''\<rparr>"
proof -
  let ?content = "''CDS  /translation='' @ [dquote, dquote]"
  have h1: "(0::nat) < length [''AB123'']" by simp
  have h2: "always_reply (Inr ?content) 0 (genbank_url ([''AB123''] ! 0)) = Inr ?content"
    by (simp add: always_reply_def)
  have h3: "map_option group1 (rx_search [DOTALL, IGNORECASE] pattern ?content) = Some []"
    by code_simp
  show ?thesis
    using empty_translation_not_found [where remote = "always_reply (Inr ?content)"
        and k = 0 and accs = "[''AB123'']" and content = "?content", OF h1 h2 h3]
    by simp
qed

section \<open>Properties of the accession parser\<close>

lemma split_not_Nil: "split sep s \<noteq> []"
  by (induction s) simp_all

lemma split_no_sep: "sep \<notin> set s \<Longrightarrow> split sep s = [s]"
  by (induction s) auto

lemma split_snoc:
  "split sep (s @ [c]) =
     (if c = sep then split sep s @ [[]]
      else butlast (split sep s) @ [last (split sep s) @ [c]])"
proof (induction s)
  case Nil
  show ?case by simp
next
  case (Cons x xs)
  obtain a rest where S: "split sep xs = a # rest"
    using split_not_Nil [of sep xs] by (cases "split sep xs") auto
  show ?case
  proof (cases "c = sep")
    case True
    then show ?thesis using Cons.IH by (simp add: S)
  next
    case False
    then show ?thesis using Cons.IH by (cases rest) (simp_all add: S)
  qed
qed

lemma strip_space_Cons: "is_space c \<Longrightarrow> strip (c # x) = strip x"
  by (simp add: strip_def)

lemma strip_space_snoc:
  assumes "is_space c"
  shows "strip (w @ [c]) = strip w"
proof (cases "\<forall>y\<in>set w. is_space y")
  case True
  then have d: "dropWhile is_space w = []" by simp
  from True assms have d': "dropWhile is_space (w @ [c]) = []" by simp
  show ?thesis unfolding strip_def d d' by simp
next
  case False
  then have d': "dropWhile is_space (w @ [c]) = dropWhile is_space w @ [c]"
    by (simp add: dropWhile_append)
  show ?thesis unfolding strip_def d' using assms by simp
qed

lemma split_lstrip:
  "\<not> is_space sep \<Longrightarrow>
     map strip (split sep (dropWhile is_space s)) = map strip (split sep s)"
proof (induction s)
  case Nil
  show ?case by simp
next
  case (Cons c cs)
  show ?case
  proof (cases "is_space c")
    case False
    then show ?thesis by simp
  next
    case True
    with Cons.prems have "c \<noteq> sep" by auto
    have ne: "split sep cs \<noteq> []" by (rule split_not_Nil)
    have "map strip (split sep (c # cs)) =
        strip (c # hd (split sep cs)) # map strip (tl (split sep cs))"
      using \<open>c \<noteq> sep\<close> by simp
    also have "\<dots> = map strip (hd (split sep cs) # tl (split sep cs))"
      using True by (simp add: strip_space_Cons)
    also have "\<dots> = map strip (split sep cs)"
      using ne by simp
    finally show ?thesis
      using True Cons.IH [OF Cons.prems] by simp
  qed
qed

lemma split_rstrip:
  "\<not> is_space sep \<Longrightarrow>
     map strip (split sep (rev (dropWhile is_space (rev s)))) = map strip (split sep s)"
proof (induction s rule: rev_induct)
  case Nil
  show ?case by simp
next
  case (snoc c cs)
  show ?case
  proof (cases "is_space c")
    case False
    then show ?thesis by simp
  next
    case True
    with snoc.prems have "c \<noteq> sep" by auto
    have ne: "split sep cs \<noteq> []" by (rule split_not_Nil)
    have "map strip (split sep (cs @ [c])) =
        map strip (butlast (split sep cs)) @ [strip (last (split sep cs) @ [c])]"
      using \<open>c \<noteq> sep\<close> by (simp add: split_snoc)
    also have "\<dots> = map strip (butlast (split sep cs) @ [last (split sep cs)])"
      using True by (simp add: strip_space_snoc)
    also have "\<dots> = map strip (split sep cs)"
      using ne by simp
    finally show ?thesis
      using True snoc.IH [OF snoc.prems] by simp
  qed
qed

lemma split_strip:
  assumes "\<not> is_space sep"
  shows "map strip (split sep (strip s)) = map strip (split sep s)"
proof -
  have "map strip (split sep (strip s)) =
      map strip (split sep (rev (dropWhile is_space (rev (dropWhile is_space s)))))"
    by (simp add: strip_def)
  also have "\<dots> = map strip (split sep (dropWhile is_space s))"
    using assms by (rule split_rstrip)
  also have "\<dots> = map strip (split sep s)"
    using assms by (rule split_lstrip)
  finally show ?thesis .
qed

lemma strip_Nil_iff: "strip s = [] \<longleftrightarrow> (\<forall>c\<in>set s. is_space c)"
proof (cases "dropWhile is_space s")
  case Nil
  then have "\<forall>c\<in>set s. is_space c" by simp
  then show ?thesis unfolding strip_def Nil by simp
next
  case (Cons a t)
  have "\<not> is_space a"
    using hd_dropWhile [of is_space s] Cons by simp
  moreover have "\<not> (\<forall>c\<in>set s. is_space c)"
    using Cons by (auto simp flip: dropWhile_eq_Nil_conv)
  ultimately show ?thesis unfolding strip_def Cons by simp
qed

lemma comma_not_space: "\<not> is_space CHR '',''"
  by (simp add: is_space_def code_def space_code_def)

lemma leer_tokens:
  "leer_accesiones_desde_contenido s =
     filter (\<lambda>t. t \<noteq> []) (map strip (split CHR '','' s))"
proof (cases "strip s = []")
  case True
  then have sp: "\<forall>c\<in>set s. is_space c" by (simp add: strip_Nil_iff)
  then have "CHR '','' \<notin> set s" using comma_not_space by auto
  then have "split CHR '','' s = [s]" by (rule split_no_sep)
  with True show ?thesis by (simp add: leer_accesiones_desde_contenido_def)
next
  case False
  have "map strip (filter (\<lambda>acc. strip acc \<noteq> []) (split CHR '','' (strip s))) =
      filter (\<lambda>t. t \<noteq> []) (map strip (split CHR '','' (strip s)))"
    by (simp add: filter_map comp_def)
  also have "\<dots> = filter (\<lambda>t. t \<noteq> []) (map strip (split CHR '','' s))"
    by (simp add: split_strip comma_not_space)
  finally show ?thesis
    using False by (simp add: leer_accesiones_desde_contenido_def)
qed

text \<open>
  C8: the parser returns the fields of the text between commas, each without its
  surrounding whitespace, leaving out the fields that are empty then. For
  \<open> AB123, CD456 ,, EF789 \<close> that is \<open>AB123\<close>, \<open>CD456\<close>, \<open>EF789\<close>; for the empty text and
  for a text of whitespace only it is the empty list.
\<close>

theorem accessions_parsed:
  "leer_accesiones_desde_contenido contenido =
     filter (\<lambda>token. token \<noteq> []) (map strip (split CHR '','' contenido)) \<and>
   leer_accesiones_desde_contenido '' AB123, CD456 ,, EF789 '' =
     [''AB123'', ''CD456'', ''EF789''] \<and>
   leer_accesiones_desde_contenido [] = [] \<and>
   ((\<forall>c\<in>set contenido. is_space c) \<longrightarrow> leer_accesiones_desde_contenido contenido = [])"
proof (intro conjI impI)
  show "leer_accesiones_desde_contenido contenido =
     filter (\<lambda>token. token \<noteq> []) (map strip (split CHR '','' contenido))"
    by (rule leer_tokens)
  show "leer_accesiones_desde_contenido '' AB123, CD456 ,, EF789 '' =
     [''AB123'', ''CD456'', ''EF789'']"
    by code_simp
  show "leer_accesiones_desde_contenido [] = []"
    by (simp add: leer_accesiones_desde_contenido_def strip_def)
  show "leer_accesiones_desde_contenido contenido = []"
    if "\<forall>c\<in>set contenido. is_space c"
    using that by (simp add: leer_accesiones_desde_contenido_def strip_Nil_iff)
qed

theorem accessions_parsed_witness:
  "leer_accesiones_desde_contenido ('' '' @ [newline, CHR 0x09] @ ''  '') = []"
proof -
  have "\<forall>c\<in>set ('' '' @ [newline, CHR 0x09] @ ''  ''). is_space c"
    by (simp add: is_space_def code_def space_code_def newline_def)
  with accessions_parsed [of "'' '' @ [newline, CHR 0x09] @ ''  ''"] show ?thesis by blast
qed

end
